theory Spec2Isabelle
  imports Main "HOL-Library.Word"
begin

section \<open>OMAP4+ CPU idle routines (arch/arm/mach-omap2/cpuidle_omap4plus.c)\<close>

text \<open>
  The three idle-entry callbacks and the init routine of the driver are embedded as
  functions that return, next to the C return value, the updated driver globals and the
  list of calls and shared-memory accesses the C code performs, in program order.  The
  kernel services the driver calls (power and clock domains, notifier chains, the
  coupled-idle barrier) are not part of this file: each call appears as an \<open>event\<close>, and
  whatever such a call reports back to the driver is an input of the model.
\<close>

subsection \<open>Data\<close>

text \<open>
  Functional power states.  The constants are declared in a header outside this file;
  the driver only compares them for equality, so they are the constructors of a
  datatype.  \<open>PWRDM_FUNC_PWRST_other\<close> stands for every other value a register read or a
  table byte can hold.
\<close>

datatype fpwrst =
    PWRDM_FUNC_PWRST_OFF
  | PWRDM_FUNC_PWRST_OSWR
  | PWRDM_FUNC_PWRST_CSWR
  | PWRDM_FUNC_PWRST_ON
  | PWRDM_FUNC_PWRST_other int

datatype pwrst = PWRDM_POWER_OFF | PWRDM_POWER_RET | PWRDM_POWER_ON

text \<open>
  \<open>struct idle_statedata\<close>.  The declaration lists \<open>cpu_pwrst\<close>, \<open>mpu_pwrst\<close> and
  \<open>mpu_state_vote\<close>; \<open>omap_enter_idle_smp\<close> also reads \<open>cx->cpu_state\<close>, so the record
  carries that field too.  \<open>mpu_state_vote\<close> is a \<open>u32\<close>: \<open>++\<close> and \<open>--\<close> wrap.
\<close>

record idle_statedata =
  cpu_pwrst :: fpwrst
  mpu_pwrst :: fpwrst
  mpu_state_vote :: "32 word"
  cpu_state :: pwrst

text \<open>
  The OMAP4 table.  Its initialisers name \<open>cpu_pwrst\<close> and \<open>mpu_pwrst\<close>; the other
  fields are zero, which for \<open>cpu_state\<close> is taken to be \<open>PWRDM_POWER_OFF\<close> (the coupled
  and simple callbacks, the only ones the OMAP4 driver uses, never read it).  The
  initialisers of \<open>omap5_idle_data\<close> name fields the struct does not declare; the
  callbacks are verified for every table, so that table is not transcribed.
\<close>

definition omap4_idle_data :: "idle_statedata list" where
  "omap4_idle_data =
    [ \<lparr>cpu_pwrst = PWRDM_FUNC_PWRST_ON, mpu_pwrst = PWRDM_FUNC_PWRST_ON,
        mpu_state_vote = 0, cpu_state = PWRDM_POWER_OFF\<rparr>,
      \<lparr>cpu_pwrst = PWRDM_FUNC_PWRST_OFF, mpu_pwrst = PWRDM_FUNC_PWRST_CSWR,
        mpu_state_vote = 0, cpu_state = PWRDM_POWER_OFF\<rparr>,
      \<lparr>cpu_pwrst = PWRDM_FUNC_PWRST_OFF, mpu_pwrst = PWRDM_FUNC_PWRST_OSWR,
        mpu_state_vote = 0, cpu_state = PWRDM_POWER_OFF\<rparr> ]"

text \<open>
  \<open>state_ptr + index\<close> is pointer arithmetic on the table without a bounds check, so
  the memory \<open>state_ptr\<close> points to is a function from the element offset to the element.
  \<open>table_at\<close> views one of the static tables that way (for offsets inside the table).
\<close>

type_synonym state_table = "int \<Rightarrow> idle_statedata"

definition table_at :: "idle_statedata list \<Rightarrow> state_table" where
  "table_at xs = (\<lambda>i. xs ! nat i)"

datatype clock_evt =
    CLOCK_EVT_NOTIFY_BROADCAST_ON
  | CLOCK_EVT_NOTIFY_BROADCAST_ENTER
  | CLOCK_EVT_NOTIFY_BROADCAST_EXIT

text \<open>The power-domain handles the driver passes: \<open>mpu_pd\<close> and \<open>cpu_pd[n]\<close>.\<close>

datatype pd = Mpu_pd | Cpu_pd nat

text \<open>
  One constructor per external call or shared-memory access of the driver.  A read
  carries the value that was read.
\<close>

datatype event =
    Omap_do_wfi
  | Clockevents_notify clock_evt nat
  | Pwrdm_read_fpwrst pd fpwrst
  | Cpu_relax
  | Cpu_done_read nat bool
  | Cpu_done_write nat bool
  | Cpu_pm_enter
  | Cpu_pm_exit
  | Cpu_cluster_pm_enter
  | Cpu_cluster_pm_exit
  | Pwrdm_set_fpwrst pd fpwrst
  | Warn_on
  | Pwrdm_set_next_fpwrst pd fpwrst
  | Omap4_mpuss_enter_lowpower nat fpwrst
  | Omap4_enter_lowpower nat pwrst
  | Clkdm_wakeup nat
  | Clkdm_allow_idle nat
  | Cpuidle_coupled_parallel_barrier nat
  | Raw_spin_lock_irqsave
  | Raw_spin_unlock_irqrestore
  | Mpu_state_vote_write int "32 word"
  | Pwrdm_lookup string
  | Clkdm_lookup string
  | Cpuidle_register string
  | Cpuidle_register_driver string

record cpuidle_device =
  cpu :: nat

text \<open>
  What the kernel tells the driver during one call: the online mask, the executing CPU,
  the value \<open>pwrdm_set_fpwrst\<close> returns, and, for the wait loop of CPU0, what each
  iteration observes: the value \<open>pwrdm_read_fpwrst(cpu_pd[1])\<close> returns and the value of
  \<open>cpu_done[1]\<close> (a flag CPU1 writes concurrently) read in that iteration.
\<close>

record env =
  cpu_online_mask :: "nat set"
  smp_processor_id :: nat
  pwrdm_set_fpwrst_ret :: int
  polls :: "(fpwrst \<times> bool) list"

text \<open>The driver globals the idle-entry callbacks read and write.\<close>

record globals =
  state_ptr :: state_table
  cpu_done :: "nat \<Rightarrow> bool"

record result =
  ret :: int
  final :: globals
  events :: "event list"

subsection \<open>omap_enter_idle_simple\<close>

definition omap_enter_idle_simple :: "cpuidle_device \<Rightarrow> int \<Rightarrow> globals \<Rightarrow> result" where
  "omap_enter_idle_simple dev index g =
     \<lparr>ret = index, final = g, events = [Omap_do_wfi]\<rparr>"

subsection \<open>omap_enter_idle_coupled\<close>

text \<open>
  The wait loop of lines 109 to 122.  Each iteration consumes one observation.  The
  result is \<open>Some True\<close> when the loop condition fails (CPU1 reads as off),
  \<open>Some False\<close> when the loop is left by \<open>goto fail\<close>, and \<open>None\<close> when the loop is
  still spinning after all the given observations.
\<close>

fun wait_cpu1_off :: "(fpwrst \<times> bool) list \<Rightarrow> (bool \<times> event list) option" where
  "wait_cpu1_off [] = None"
| "wait_cpu1_off ((st, done1) # rest) =
     (if st = PWRDM_FUNC_PWRST_OFF then
        Some (True, [Pwrdm_read_fpwrst (Cpu_pd 1) st])
      else if done1 then
        Some (False, [Pwrdm_read_fpwrst (Cpu_pd 1) st, Cpu_relax, Cpu_done_read 1 True])
      else
        (case wait_cpu1_off rest of
           None \<Rightarrow> None
         | Some (off, evs) \<Rightarrow>
             Some (off, [Pwrdm_read_fpwrst (Cpu_pd 1) st, Cpu_relax, Cpu_done_read 1 False] @ evs)))"

text \<open>Lines 125 to 169: what runs between the wait loop and the \<open>fail\<close> label.\<close>

definition coupled_sequence :: "env \<Rightarrow> cpuidle_device \<Rightarrow> idle_statedata \<Rightarrow> event list" where
  "coupled_sequence e dev cx =
     [Clockevents_notify CLOCK_EVT_NOTIFY_BROADCAST_ENTER (smp_processor_id e),
      Cpu_pm_enter]
     @ (if cpu dev = 0 then
          [Pwrdm_set_fpwrst Mpu_pd (mpu_pwrst cx)]
          @ (if pwrdm_set_fpwrst_ret e \<noteq> 0 then [Warn_on] else [])
          @ (if mpu_pwrst cx = PWRDM_FUNC_PWRST_OSWR then [Cpu_cluster_pm_enter] else [])
        else [])
     @ [Omap4_mpuss_enter_lowpower (cpu dev) (cpu_pwrst cx),
        Cpu_done_write (cpu dev) True]
     @ (if cpu dev = 0 \<and> 1 \<in> cpu_online_mask e then
          [Pwrdm_set_next_fpwrst Mpu_pd PWRDM_FUNC_PWRST_ON,
           Clkdm_wakeup 1,
           Pwrdm_set_next_fpwrst (Cpu_pd 1) PWRDM_FUNC_PWRST_ON,
           Clkdm_allow_idle 1]
        else [])
     @ [Cpu_pm_exit]
     @ (if mpu_pwrst cx = PWRDM_FUNC_PWRST_OSWR then [Cpu_cluster_pm_exit] else [])
     @ [Clockevents_notify CLOCK_EVT_NOTIFY_BROADCAST_EXIT (smp_processor_id e)]"

text \<open>
  The whole callback.  \<open>None\<close> means that CPU0 is still in its wait loop when the
  observations run out.
\<close>

definition omap_enter_idle_coupled ::
    "env \<Rightarrow> cpuidle_device \<Rightarrow> int \<Rightarrow> globals \<Rightarrow> result option" where
  "omap_enter_idle_coupled e dev index g =
     (let cx = state_ptr g index in
      case (if cpu dev = 0 \<and> 1 \<in> cpu_online_mask e
            then wait_cpu1_off (polls e) else Some (True, [])) of
        None \<Rightarrow> None
      | Some (off, waited) \<Rightarrow>
          Some \<lparr>ret = index,
                final = g\<lparr>cpu_done := (cpu_done g)(cpu dev := False)\<rparr>,
                events = waited
                  @ (if off then coupled_sequence e dev cx else [])
                  @ [Cpuidle_coupled_parallel_barrier (cpu dev),
                     Cpu_done_write (cpu dev) False]\<rparr>)"

subsection \<open>omap_enter_idle_smp\<close>

text \<open>
  \<open>num_online_cpus()\<close> is the number of CPUs in \<open>cpu_online_mask\<close>, as an unsigned
  int.
\<close>

definition num_online_cpus :: "nat set \<Rightarrow> 32 word" where
  "num_online_cpus online = of_nat (card online)"

text \<open>Lines 188 to 193: the first section under \<open>mpu_lock\<close>.\<close>

definition smp_vote_enter :: "32 word \<Rightarrow> int \<Rightarrow> state_table \<Rightarrow> state_table \<times> event list" where
  "smp_vote_enter n index tbl =
     (let cx = tbl index; v = mpu_state_vote cx + 1 in
      (tbl(index := cx\<lparr>mpu_state_vote := v\<rparr>),
       [Raw_spin_lock_irqsave, Mpu_state_vote_write index v]
       @ (if v = n then [Pwrdm_set_next_fpwrst Mpu_pd (mpu_pwrst cx)] else [])
       @ [Raw_spin_unlock_irqrestore]))"

text \<open>Lines 197 to 202: the second section under \<open>mpu_lock\<close>.\<close>

definition smp_vote_exit :: "32 word \<Rightarrow> int \<Rightarrow> state_table \<Rightarrow> state_table \<times> event list" where
  "smp_vote_exit n index tbl =
     (let cx = tbl index; v = mpu_state_vote cx in
      (tbl(index := cx\<lparr>mpu_state_vote := v - 1\<rparr>),
       [Raw_spin_lock_irqsave]
       @ (if v = n then [Pwrdm_set_next_fpwrst Mpu_pd PWRDM_FUNC_PWRST_ON] else [])
       @ [Mpu_state_vote_write index (v - 1), Raw_spin_unlock_irqrestore]))"

text \<open>
  Lines 186 to 195: from the call up to the point where the CPU sits in
  \<open>omap4_enter_lowpower\<close>.
\<close>

definition smp_enter :: "env \<Rightarrow> cpuidle_device \<Rightarrow> int \<Rightarrow> globals \<Rightarrow> globals \<times> event list" where
  "smp_enter e dev index g =
     (let (tbl, voted) = smp_vote_enter (num_online_cpus (cpu_online_mask e)) index (state_ptr g) in
      (g\<lparr>state_ptr := tbl\<rparr>,
       [Clockevents_notify CLOCK_EVT_NOTIFY_BROADCAST_ENTER (smp_processor_id e)]
       @ voted
       @ [Omap4_enter_lowpower (cpu dev) (cpu_state (tbl index))]))"

text \<open>Lines 197 to 206: from the wake-up to the return.\<close>

definition smp_exit :: "env \<Rightarrow> cpuidle_device \<Rightarrow> int \<Rightarrow> globals \<Rightarrow> result" where
  "smp_exit e dev index g =
     (let (tbl, unvoted) = smp_vote_exit (num_online_cpus (cpu_online_mask e)) index (state_ptr g) in
      \<lparr>ret = index,
       final = g\<lparr>state_ptr := tbl\<rparr>,
       events = unvoted
         @ [Clockevents_notify CLOCK_EVT_NOTIFY_BROADCAST_EXIT (smp_processor_id e)]\<rparr>)"

text \<open>The callback when no other CPU runs between its two halves.\<close>

definition omap_enter_idle_smp :: "env \<Rightarrow> cpuidle_device \<Rightarrow> int \<Rightarrow> globals \<Rightarrow> result" where
  "omap_enter_idle_smp e dev index g =
     (let (g1, evs1) = smp_enter e dev index g;
          r = smp_exit e dev index g1
      in r\<lparr>events := evs1 @ events r\<rparr>)"

subsubsection \<open>Several CPUs in omap_enter_idle_smp\<close>

text \<open>
  The two sections under \<open>mpu_lock\<close> are atomic with respect to each other, so a
  concurrent execution is a sequence of steps, each the first or the second half of the
  callback on one CPU.  A CPU is either outside the callback or asleep inside it (at
  line 195) with the index it was called with.  A schedule in which a CPU that is not
  online takes a step, a CPU enters while it is asleep, or leaves while it is outside,
  is not an execution: the run is \<open>None\<close>.
\<close>

datatype phase = Outside | Asleep int

datatype sched_step = Enters nat int | Leaves nat

record smp_state =
  shared :: globals
  phase :: "nat \<Rightarrow> phase"
  trace :: "event list"
  returned :: "(nat \<times> int) list"

definition env_of :: "nat set \<Rightarrow> nat \<Rightarrow> env" where
  "env_of online c =
     \<lparr>cpu_online_mask = online, smp_processor_id = c, pwrdm_set_fpwrst_ret = 0, polls = []\<rparr>"

fun smp_step :: "nat set \<Rightarrow> smp_state \<Rightarrow> sched_step \<Rightarrow> smp_state option" where
  "smp_step online s (Enters c index) =
     (if c \<in> online \<and> phase s c = Outside then
        (let (g, evs) = smp_enter (env_of online c) \<lparr>cpu = c\<rparr> index (shared s) in
         Some (s\<lparr>shared := g, phase := (phase s)(c := Asleep index), trace := trace s @ evs\<rparr>))
      else None)"
| "smp_step online s (Leaves c) =
     (case phase s c of
        Outside \<Rightarrow> None
      | Asleep index \<Rightarrow>
          (if c \<in> online then
             (let r = smp_exit (env_of online c) \<lparr>cpu = c\<rparr> index (shared s) in
              Some (s\<lparr>shared := final r, phase := (phase s)(c := Outside),
                     trace := trace s @ events r,
                     returned := returned s @ [(c, ret r)]\<rparr>))
           else None))"

fun smp_run :: "nat set \<Rightarrow> sched_step list \<Rightarrow> smp_state \<Rightarrow> smp_state option" where
  "smp_run online [] s = Some s"
| "smp_run online (x # xs) s =
     (case smp_step online s x of None \<Rightarrow> None | Some s' \<Rightarrow> smp_run online xs s')"

definition smp_init :: "globals \<Rightarrow> smp_state" where
  "smp_init g = \<lparr>shared = g, phase = (\<lambda>c. Outside), trace = [], returned = []\<rparr>"

subsection \<open>omap4_idle_init\<close>

text \<open>
  Modelled from the spec: the errno constant \<open>ENODEV\<close>, declared in a header outside
  this file.  The spec says the status is negative; 19 is the value Linux gives it.
\<close>

definition ENODEV :: int where
  "ENODEV = 19"

datatype idle_table = Omap4_idle_data | Omap5_idle_data

text \<open>
  What the kernel answers during init.  A lookup that fails returns NULL, here \<open>None\<close>.
\<close>

record init_env =
  pwrdm_lookup :: "string \<Rightarrow> nat option"
  clkdm_lookup :: "string \<Rightarrow> nat option"
  cpu_is_omap44xx :: bool
  soc_is_omap54xx :: bool
  cpuidle_register_ret :: int
  cpuidle_register_driver_ret :: int
  online_cpus :: "nat list"

record init_globals =
  mpu_pd :: "nat option"
  cpu_pd :: "nat \<Rightarrow> nat option"
  cpu_clkdm :: "nat \<Rightarrow> nat option"
  state_ptr_init :: "idle_table option"

definition omap_setup_broadcast_timer :: "nat \<Rightarrow> event list" where
  "omap_setup_broadcast_timer c = [Clockevents_notify CLOCK_EVT_NOTIFY_BROADCAST_ON c]"

definition on_each_cpu :: "(nat \<Rightarrow> event list) \<Rightarrow> nat list \<Rightarrow> event list" where
  "on_each_cpu f cpus = concat (map f cpus)"

definition omap4_idle_init :: "init_env \<Rightarrow> init_globals \<Rightarrow> int \<times> init_globals \<times> event list" where
  "omap4_idle_init e g =
     (let g1 = g\<lparr>mpu_pd := pwrdm_lookup e ''mpu_pwrdm'',
                 cpu_pd := (cpu_pd g)(0 := pwrdm_lookup e ''cpu0_pwrdm'',
                                      1 := pwrdm_lookup e ''cpu1_pwrdm'')\<rparr>;
          evs1 = [Pwrdm_lookup ''mpu_pwrdm'', Pwrdm_lookup ''cpu0_pwrdm'',
                  Pwrdm_lookup ''cpu1_pwrdm'']
      in
      if mpu_pd g1 = None \<or> cpu_pd g1 0 = None \<or> cpu_pd g1 1 = None then
        (- ENODEV, g1, evs1)
      else
        (let g2 = g1\<lparr>cpu_clkdm := (cpu_clkdm g1)(0 := clkdm_lookup e ''mpu0_clkdm'',
                                                  1 := clkdm_lookup e ''mpu1_clkdm'')\<rparr>;
             evs2 = evs1 @ [Clkdm_lookup ''mpu0_clkdm'', Clkdm_lookup ''mpu1_clkdm'']
         in
         if cpu_clkdm g2 0 = None \<or> cpu_clkdm g2 1 = None then
           (- ENODEV, g2, evs2)
         else
           (let evs3 = evs2 @ on_each_cpu omap_setup_broadcast_timer (online_cpus e) in
            if cpu_is_omap44xx e then
              (cpuidle_register_ret e,
               g2\<lparr>state_ptr_init := Some Omap4_idle_data\<rparr>,
               evs3 @ [Cpuidle_register ''omap4_idle''])
            else if soc_is_omap54xx e then
              (cpuidle_register_driver_ret e,
               g2\<lparr>state_ptr_init := Some Omap5_idle_data\<rparr>,
               evs3 @ [Cpuidle_register_driver ''omap5_idle''])
            else
              (- ENODEV, g2, evs3))))"

subsection \<open>Reading a list of events\<close>

text \<open>The targets the MPU power domain is commanded to, in order.\<close>

fun mpu_cmd :: "event \<Rightarrow> fpwrst list" where
  "mpu_cmd (Pwrdm_set_fpwrst d p) = (if d = Mpu_pd then [p] else [])"
| "mpu_cmd (Pwrdm_set_next_fpwrst d p) = (if d = Mpu_pd then [p] else [])"
| "mpu_cmd _ = []"

definition mpu_cmds :: "event list \<Rightarrow> fpwrst list" where
  "mpu_cmds evs = concat (map mpu_cmd evs)"

text \<open>
  The discipline of the shared domain, read off the commands: it starts fully on, a
  command lowers it to the commanded target, and the next command must be the one
  back to fully on.  \<open>None\<close>: the commands break that discipline.
\<close>

datatype mpu_status = Fully_on | Lowered fpwrst

fun mpu_follow :: "mpu_status \<Rightarrow> fpwrst list \<Rightarrow> mpu_status option" where
  "mpu_follow st [] = Some st"
| "mpu_follow Fully_on (p # ps) = mpu_follow (Lowered p) ps"
| "mpu_follow (Lowered q) (p # ps) =
     (if p = PWRDM_FUNC_PWRST_ON then mpu_follow Fully_on ps else None)"

text \<open>\<open>before a b evs\<close>: \<open>a\<close> occurs in \<open>evs\<close> and \<open>b\<close> occurs after its first occurrence.\<close>

fun before :: "event \<Rightarrow> event \<Rightarrow> event list \<Rightarrow> bool" where
  "before a b [] = False"
| "before a b (x # xs) = (if x = a then b \<in> set xs else before a b xs)"

text \<open>The events of a call that returned; none for a call that is still waiting.\<close>

definition events_of :: "result option \<Rightarrow> event list" where
  "events_of r = (case r of None \<Rightarrow> [] | Some x \<Rightarrow> events x)"

text \<open>The events of the wait loop: reads of CPU1's power state and flag, and \<open>cpu_relax\<close>.\<close>

fun is_poll :: "event \<Rightarrow> bool" where
  "is_poll (Pwrdm_read_fpwrst d p) = True"
| "is_poll Cpu_relax = True"
| "is_poll (Cpu_done_read c b) = True"
| "is_poll _ = False"

text \<open>
  Observations of the wait loop.  \<open>resolves\<close>: some iteration sees CPU1 off or its flag
  set.  \<open>spinning\<close>: no iteration does.  \<open>poll_events\<close>: the events of iterations that
  run in full.
\<close>

definition resolves :: "(fpwrst \<times> bool) list \<Rightarrow> bool" where
  "resolves obs = list_ex (\<lambda>(st, done1). st = PWRDM_FUNC_PWRST_OFF \<or> done1) obs"

definition spinning :: "(fpwrst \<times> bool) list \<Rightarrow> bool" where
  "spinning obs = list_all (\<lambda>(st, done1). st \<noteq> PWRDM_FUNC_PWRST_OFF \<and> \<not> done1) obs"

definition poll_events :: "(fpwrst \<times> bool) list \<Rightarrow> event list" where
  "poll_events obs =
     concat (map (\<lambda>(st, done1).
       [Pwrdm_read_fpwrst (Cpu_pd 1) st, Cpu_relax, Cpu_done_read 1 done1]) obs)"

text \<open>
  The driver globals on an OMAP4 after init: \<open>state_ptr\<close> points to
  \<open>omap4_idle_data\<close>, and the static array \<open>cpu_done\<close> is all false.
\<close>

definition omap4_globals :: globals where
  "omap4_globals = \<lparr>state_ptr = table_at omap4_idle_data, cpu_done = (\<lambda>c. False)\<rparr>"

text \<open>The online CPUs that are asleep in \<open>omap_enter_idle_smp\<close> with index \<open>i\<close>.\<close>

definition voters :: "nat set \<Rightarrow> smp_state \<Rightarrow> int \<Rightarrow> nat set" where
  "voters online s i = {c \<in> online. phase s c = Asleep i}"

text \<open>
  The state indices of the \<open>Enters\<close> steps of a schedule all lie in \<open>valid\<close>.
\<close>

fun enters_within :: "int set \<Rightarrow> sched_step list \<Rightarrow> bool" where
  "enters_within valid [] = True"
| "enters_within valid (Enters c i # xs) = (i \<in> valid \<and> enters_within valid xs)"
| "enters_within valid (Leaves c # xs) = enters_within valid xs"

text \<open>
  The invariant of concurrent executions of \<open>omap_enter_idle_smp\<close> over the state
  indices \<open>valid\<close>: CPUs are asleep with valid indices only, each vote counter is the
  number of CPUs asleep with that index, the targets in the table do not change, and
  the MPU domain stands lowered (to the target of index \<open>i\<close>) exactly while all online
  CPUs are asleep with the same index \<open>i\<close>.
\<close>

definition smp_inv :: "nat set \<Rightarrow> int set \<Rightarrow> state_table \<Rightarrow> smp_state \<Rightarrow> bool" where
  "smp_inv online valid tbl0 s \<longleftrightarrow>
     (\<forall>i. voters online s i \<noteq> {} \<longrightarrow> i \<in> valid)
   \<and> (\<forall>i\<in>valid. mpu_state_vote (state_ptr (shared s) i) = of_nat (card (voters online s i)))
   \<and> (\<forall>i. mpu_pwrst (state_ptr (shared s) i) = mpu_pwrst (tbl0 i))
   \<and> (\<forall>i. card (voters online s i) = card online \<longrightarrow>
          mpu_follow Fully_on (mpu_cmds (trace s)) = Some (Lowered (mpu_pwrst (tbl0 i))))
   \<and> ((\<forall>i. card (voters online s i) \<noteq> card online) \<longrightarrow>
          mpu_follow Fully_on (mpu_cmds (trace s)) = Some Fully_on)"

text \<open>
  The two-CPU scenario: both CPUs enter with index \<open>i\<close> before either leaves.
\<close>

definition concurrent_entry :: "int \<Rightarrow> sched_step list list" where
  "concurrent_entry i =
     [[Enters 0 i, Enters 1 i, Leaves 0, Leaves 1],
      [Enters 0 i, Enters 1 i, Leaves 1, Leaves 0],
      [Enters 1 i, Enters 0 i, Leaves 0, Leaves 1],
      [Enters 1 i, Enters 0 i, Leaves 1, Leaves 0]]"

text \<open>
  The OMAP4 table after both of two online CPUs have voted for state index 1.
\<close>

definition voted_twice :: state_table where
  "voted_twice = (table_at omap4_idle_data)(1 := (omap4_idle_data ! 1)\<lparr>mpu_state_vote := 2\<rparr>)"

text \<open>The lookups among the events of init, and the events of a call of init.\<close>

fun is_lookup :: "event \<Rightarrow> bool" where
  "is_lookup (Pwrdm_lookup n) = True"
| "is_lookup (Clkdm_lookup n) = True"
| "is_lookup _ = False"

definition init_events :: "int \<times> init_globals \<times> event list \<Rightarrow> event list" where
  "init_events r = snd (snd r)"

text \<open>
  An init on an OMAP4 where every lookup succeeds, and the driver globals before init
  (static storage, all NULL).
\<close>

definition all_found :: init_env where
  "all_found =
     \<lparr>pwrdm_lookup = (\<lambda>n. Some 1), clkdm_lookup = (\<lambda>n. Some 2),
      cpu_is_omap44xx = True, soc_is_omap54xx = False,
      cpuidle_register_ret = 0, cpuidle_register_driver_ret = 0,
      online_cpus = [0, 1]\<rparr>"

definition init_globals0 :: init_globals where
  "init_globals0 =
     \<lparr>mpu_pd = None, cpu_pd = (\<lambda>c. None), cpu_clkdm = (\<lambda>c. None), state_ptr_init = None\<rparr>"

section \<open>Auxiliary facts\<close>

subsection \<open>Event lists\<close>

lemma mpu_cmds_Nil [simp]: "mpu_cmds [] = []"
  by (simp add: mpu_cmds_def)

lemma mpu_cmds_Cons [simp]: "mpu_cmds (x # xs) = mpu_cmd x @ mpu_cmds xs"
  by (simp add: mpu_cmds_def)

lemma mpu_cmds_append [simp]: "mpu_cmds (xs @ ys) = mpu_cmds xs @ mpu_cmds ys"
  by (simp add: mpu_cmds_def)

lemma mpu_follow_append:
  "mpu_follow st (xs @ ys) =
     (case mpu_follow st xs of None \<Rightarrow> None | Some st' \<Rightarrow> mpu_follow st' ys)"
  by (induction st xs rule: mpu_follow.induct) simp_all

lemma mpu_cmds_polls: "\<forall>ev\<in>set evs. is_poll ev \<Longrightarrow> mpu_cmds evs = []"
proof (induction evs)
  case Nil
  show ?case by simp
next
  case (Cons ev evs)
  then show ?case by (cases ev) simp_all
qed

lemma poll_events_polls: "\<forall>ev\<in>set (poll_events obs). is_poll ev"
  by (induction obs) (auto simp: poll_events_def)

subsection \<open>The wait loop\<close>

lemma wait_None: "wait_cpu1_off obs = None \<longleftrightarrow> \<not> resolves obs"
  by (induction obs rule: wait_cpu1_off.induct)
     (auto simp: resolves_def split: option.splits)

lemma wait_polls: "wait_cpu1_off obs = Some (off, evs) \<Longrightarrow> \<forall>ev\<in>set evs. is_poll ev"
  by (induction obs arbitrary: off evs rule: wait_cpu1_off.induct)
     (auto split: if_splits option.splits)

lemma wait_off:
  "wait_cpu1_off obs = Some (True, evs) \<Longrightarrow>
   \<exists>pre. evs = pre @ [Pwrdm_read_fpwrst (Cpu_pd 1) PWRDM_FUNC_PWRST_OFF]
         \<and> Cpu_done_read 1 True \<notin> set evs"
  by (induction obs arbitrary: evs rule: wait_cpu1_off.induct)
     (auto split: if_splits option.splits)

lemma wait_spinning:
  "spinning pre \<Longrightarrow>
   wait_cpu1_off (pre @ rest) =
     map_option (\<lambda>(off, evs). (off, poll_events pre @ evs)) (wait_cpu1_off rest)"
proof (induction pre)
  case Nil
  show ?case
    by (simp add: poll_events_def option.map_ident case_prod_eta cong: option.map_cong)
next
  case (Cons ob pre)
  obtain st d where ob: "ob = (st, d)" by (cases ob)
  from Cons.prems ob have now: "st \<noteq> PWRDM_FUNC_PWRST_OFF" "\<not> d" and later: "spinning pre"
    by (simp_all add: spinning_def)
  show ?case
    using Cons.IH [OF later] now ob
    by (cases "wait_cpu1_off rest") (auto simp: poll_events_def)
qed

subsection \<open>The vote counter\<close>

lemma word32_of_nat_eq:
  assumes "a < 2 ^ 32" "b < 2 ^ 32"
  shows "(of_nat a :: 32 word) = of_nat b \<longleftrightarrow> a = b"
  using assms by (simp add: word_of_nat_eq_iff take_bit_nat_eq_self)

lemma voters_sub: "voters online s i \<subseteq> online"
  by (auto simp: voters_def)

lemma voters_short:
  assumes "finite online" "c \<in> online" "c \<notin> voters online s i"
  shows "card (voters online s i) < card online"
proof -
  have "voters online s i \<subset> online"
    using assms voters_sub [of online s i] by auto
  then show ?thesis
    using assms(1) by (rule psubset_card_mono [rotated])
qed

lemma voters_enter:
  assumes "c \<in> online" "phase s c = Outside"
  shows "voters online (s\<lparr>shared := g, phase := (phase s)(c := Asleep i), trace := t\<rparr>) j
          = (if j = i then insert c (voters online s i) else voters online s j)"
  using assms by (auto simp: voters_def)

lemma voters_leave:
  assumes "phase s c = Asleep i"
  shows "voters online
           (s\<lparr>shared := g, phase := (phase s)(c := Outside), trace := t, returned := r\<rparr>) j
          = (if j = i then voters online s i - {c} else voters online s j)"
  using assms by (auto simp: voters_def)

lemma smp_enter_table:
  "state_ptr (fst (smp_enter e dev i g)) =
     (state_ptr g)(i := (state_ptr g i)\<lparr>mpu_state_vote := mpu_state_vote (state_ptr g i) + 1\<rparr>)"
  by (simp add: smp_enter_def smp_vote_enter_def Let_def)

lemma smp_enter_cmds:
  "mpu_cmds (snd (smp_enter e dev i g)) =
     (if mpu_state_vote (state_ptr g i) + 1 = num_online_cpus (cpu_online_mask e)
      then [mpu_pwrst (state_ptr g i)] else [])"
  by (simp add: smp_enter_def smp_vote_enter_def Let_def)

lemma smp_exit_table:
  "state_ptr (final (smp_exit e dev i g)) =
     (state_ptr g)(i := (state_ptr g i)\<lparr>mpu_state_vote := mpu_state_vote (state_ptr g i) - 1\<rparr>)"
  by (simp add: smp_exit_def smp_vote_exit_def Let_def)

lemma smp_exit_cmds:
  "mpu_cmds (events (smp_exit e dev i g)) =
     (if mpu_state_vote (state_ptr g i) = num_online_cpus (cpu_online_mask e)
      then [PWRDM_FUNC_PWRST_ON] else [])"
  by (simp add: smp_exit_def smp_vote_exit_def Let_def)

lemma smp_inv_enter:
  assumes fin: "finite online" and small: "card online < 2 ^ 32"
    and inv: "smp_inv online valid tbl0 s"
    and c: "c \<in> online" and out: "phase s c = Outside" and i: "i \<in> valid"
    and s': "s' = s\<lparr>shared := fst (smp_enter (env_of online c) \<lparr>cpu = c\<rparr> i (shared s)),
                     phase := (phase s)(c := Asleep i),
                     trace := trace s @ snd (smp_enter (env_of online c) \<lparr>cpu = c\<rparr> i (shared s))\<rparr>"
  shows "smp_inv online valid tbl0 s'"
proof -
  let ?V = "voters online s" and ?V' = "voters online s'"
  have V': "?V' j = (if j = i then insert c (?V i) else ?V j)" for j
    unfolding s' by (rule voters_enter [OF c out])
  have notin: "c \<notin> ?V j" for j using out by (simp add: voters_def)
  have short: "card (?V j) < card online" for j
    by (rule voters_short [OF fin c notin])
  have finV: "finite (?V j)" for j
    using fin voters_sub [of online s j] by (rule rev_finite_subset)
  have cardi: "card (?V' i) = Suc (card (?V i))"
    using finV notin by (simp add: V')
  have ne: "card (?V j) \<noteq> card online" for j
    using short [of j] by simp
  have before: "mpu_follow Fully_on (mpu_cmds (trace s)) = Some Fully_on"
    using inv ne by (simp add: smp_inv_def)
  have vote: "mpu_state_vote (state_ptr (shared s) j) = of_nat (card (?V j))"
    if "j \<in> valid" for j
    using inv that by (simp add: smp_inv_def)
  have tgt: "mpu_pwrst (state_ptr (shared s) j) = mpu_pwrst (tbl0 j)" for j
    using inv by (simp add: smp_inv_def)
  have full: "mpu_state_vote (state_ptr (shared s) i) + 1 = num_online_cpus online
                \<longleftrightarrow> card (?V' i) = card online"
  proof -
    have "mpu_state_vote (state_ptr (shared s) i) + 1 = (of_nat (Suc (card (?V i))) :: 32 word)"
      by (simp add: vote [OF i])
    moreover have "Suc (card (?V i)) < 2 ^ 32" using short [of i] small by simp
    ultimately show ?thesis
      using small by (simp add: num_online_cpus_def word32_of_nat_eq cardi del: of_nat_Suc)
  qed
  have tbl': "state_ptr (shared s') =
      (state_ptr (shared s))(i := (state_ptr (shared s) i)
          \<lparr>mpu_state_vote := mpu_state_vote (state_ptr (shared s) i) + 1\<rparr>)"
    by (simp add: s' smp_enter_table)
  have cmds': "mpu_cmds (trace s') = mpu_cmds (trace s)
      @ (if card (?V' i) = card online then [mpu_pwrst (tbl0 i)] else [])"
    using full by (simp add: s' smp_enter_cmds env_of_def tgt)
  have 0: "j \<in> valid" if "?V' j \<noteq> {}" for j
  proof (cases "j = i")
    case True
    with i show ?thesis by simp
  next
    case False
    with that have "?V j \<noteq> {}" by (simp add: V')
    with inv show ?thesis by (simp add: smp_inv_def)
  qed
  have 1: "mpu_state_vote (state_ptr (shared s') j) = of_nat (card (?V' j))"
    if "j \<in> valid" for j
    using vote [OF that] vote [OF i] by (simp add: tbl' cardi) (simp add: V')
  have 2: "mpu_pwrst (state_ptr (shared s') j) = mpu_pwrst (tbl0 j)" for j
    by (simp add: tbl' tgt)
  have other: "card (?V' j) \<noteq> card online" if "j \<noteq> i" for j
    using that short [of j] by (simp add: V')
  have 3: "mpu_follow Fully_on (mpu_cmds (trace s')) = Some (Lowered (mpu_pwrst (tbl0 j)))"
    if "card (?V' j) = card online" for j
  proof -
    from that other have "j = i" by blast
    with that show ?thesis by (simp add: cmds' mpu_follow_append before)
  qed
  have 4: "mpu_follow Fully_on (mpu_cmds (trace s')) = Some Fully_on"
    if "\<forall>j. card (?V' j) \<noteq> card online"
    using that by (simp add: cmds' before)
  from 0 1 2 3 4 show ?thesis unfolding smp_inv_def by blast
qed

lemma smp_inv_leave:
  assumes fin: "finite online" and small: "card online < 2 ^ 32"
    and inv: "smp_inv online valid tbl0 s"
    and c: "c \<in> online" and asleep: "phase s c = Asleep i"
    and s': "s' = s\<lparr>shared := final (smp_exit (env_of online c) \<lparr>cpu = c\<rparr> i (shared s)),
                     phase := (phase s)(c := Outside),
                     trace := trace s @ events (smp_exit (env_of online c) \<lparr>cpu = c\<rparr> i (shared s)),
                     returned := rs\<rparr>"
  shows "smp_inv online valid tbl0 s'"
proof -
  let ?V = "voters online s" and ?V' = "voters online s'"
  have V': "?V' j = (if j = i then ?V i - {c} else ?V j)" for j
    unfolding s' by (rule voters_leave [OF asleep])
  have inV: "c \<in> ?V i" using c asleep by (simp add: voters_def)
  then have "?V i \<noteq> {}" by blast
  with inv have i: "i \<in> valid" by (simp add: smp_inv_def)
  have notin: "c \<notin> ?V j" if "j \<noteq> i" for j using asleep that by (simp add: voters_def)
  have notin': "c \<notin> ?V' j" for j using notin [of j] by (simp add: V')
  have short: "card (?V j) < card online" if "j \<noteq> i" for j
    by (rule voters_short [OF fin c notin [OF that]])
  have short': "card (?V' j) < card online" for j
    by (rule voters_short [OF fin c notin'])
  have finV: "finite (?V j)" for j
    using fin voters_sub [of online s j] by (rule rev_finite_subset)
  have cardi: "card (?V i) = Suc (card (?V' i))"
    using card_Suc_Diff1 [OF finV inV] by (simp add: V')
  have le: "card (?V i) \<le> card online"
    using fin voters_sub [of online s i] by (rule card_mono)
  have vote: "mpu_state_vote (state_ptr (shared s) j) = of_nat (card (?V j))"
    if "j \<in> valid" for j
    using inv that by (simp add: smp_inv_def)
  have tgt: "mpu_pwrst (state_ptr (shared s) j) = mpu_pwrst (tbl0 j)" for j
    using inv by (simp add: smp_inv_def)
  have full: "mpu_state_vote (state_ptr (shared s) i) = num_online_cpus online
                \<longleftrightarrow> card (?V i) = card online"
    using le small by (simp add: vote [OF i] num_online_cpus_def word32_of_nat_eq)
  have tbl': "state_ptr (shared s') =
      (state_ptr (shared s))(i := (state_ptr (shared s) i)
          \<lparr>mpu_state_vote := mpu_state_vote (state_ptr (shared s) i) - 1\<rparr>)"
    by (simp add: s' smp_exit_table)
  have cmds': "mpu_cmds (trace s') = mpu_cmds (trace s)
      @ (if card (?V i) = card online then [PWRDM_FUNC_PWRST_ON] else [])"
    using full by (simp add: s' smp_exit_cmds env_of_def)
  have 0: "j \<in> valid" if "?V' j \<noteq> {}" for j
  proof -
    from that have "?V j \<noteq> {}" by (auto simp: V' split: if_splits)
    with inv show ?thesis by (simp add: smp_inv_def)
  qed
  have 1: "mpu_state_vote (state_ptr (shared s') j) = of_nat (card (?V' j))"
    if "j \<in> valid" for j
    using vote [OF that] vote [OF i] by (simp add: tbl' cardi) (simp add: V')
  have 2: "mpu_pwrst (state_ptr (shared s') j) = mpu_pwrst (tbl0 j)" for j
    by (simp add: tbl' tgt)
  have 4: "mpu_follow Fully_on (mpu_cmds (trace s')) = Some Fully_on"
  proof (cases "card (?V i) = card online")
    case True
    with inv have "mpu_follow Fully_on (mpu_cmds (trace s)) = Some (Lowered (mpu_pwrst (tbl0 i)))"
      by (simp add: smp_inv_def)
    with True show ?thesis by (simp add: cmds' mpu_follow_append)
  next
    case False
    have "card (?V j) \<noteq> card online" for j
      using False short [of j] by (cases "j = i") auto
    with inv have "mpu_follow Fully_on (mpu_cmds (trace s)) = Some Fully_on"
      by (simp add: smp_inv_def)
    with False show ?thesis by (simp add: cmds')
  qed
  have 3: "card (?V' j) \<noteq> card online" for j
    using short' [of j] by simp
  from 0 1 2 3 4 show ?thesis unfolding smp_inv_def by blast
qed

lemma smp_inv_step:
  assumes "finite online" "card online < 2 ^ 32" "smp_inv online valid tbl0 s"
    and "smp_step online s x = Some s'" and "enters_within valid [x]"
  shows "smp_inv online valid tbl0 s'"
proof (cases x)
  case (Enters c i)
  with assms(4,5) have "c \<in> online" "phase s c = Outside" "i \<in> valid"
    and "s' = s\<lparr>shared := fst (smp_enter (env_of online c) \<lparr>cpu = c\<rparr> i (shared s)),
                 phase := (phase s)(c := Asleep i),
                 trace := trace s @ snd (smp_enter (env_of online c) \<lparr>cpu = c\<rparr> i (shared s))\<rparr>"
    by (auto simp: case_prod_beta split: if_splits)
  with assms(1-3) show ?thesis by (rule smp_inv_enter)
next
  case (Leaves c)
  with assms(4) obtain i where "c \<in> online" "phase s c = Asleep i"
    and "s' = s\<lparr>shared := final (smp_exit (env_of online c) \<lparr>cpu = c\<rparr> i (shared s)),
                     phase := (phase s)(c := Outside),
                     trace := trace s @ events (smp_exit (env_of online c) \<lparr>cpu = c\<rparr> i (shared s)),
                     returned := returned s @ [(c, ret (smp_exit (env_of online c) \<lparr>cpu = c\<rparr> i (shared s)))]\<rparr>"
    by (auto simp: Let_def split: phase.splits if_splits)
  with assms(1-3) show ?thesis by (rule smp_inv_leave)
qed

lemma smp_inv_run:
  assumes "finite online" "card online < 2 ^ 32"
  shows "smp_inv online valid tbl0 s \<Longrightarrow> enters_within valid sched \<Longrightarrow>
         smp_run online sched s = Some s' \<Longrightarrow> smp_inv online valid tbl0 s'"
proof (induction sched arbitrary: s)
  case Nil
  then show ?case by simp
next
  case (Cons x sched)
  from Cons.prems(3) obtain s1 where 1: "smp_step online s x = Some s1"
    and 2: "smp_run online sched s1 = Some s'"
    by (auto split: option.splits)
  from Cons.prems(2) have 3: "enters_within valid [x]" and 4: "enters_within valid sched"
    by (cases x; simp)+
  from smp_inv_step [OF assms Cons.prems(1) 1 3] 4 2 show ?case by (rule Cons.IH)
qed

lemma smp_inv_init:
  assumes "online \<noteq> {}" "finite online" "\<forall>i\<in>valid. mpu_state_vote (state_ptr g i) = 0"
  shows "smp_inv online valid (state_ptr g) (smp_init g)"
proof -
  have "voters online (smp_init g) i = {}" for i by (simp add: voters_def smp_init_def)
  moreover have "card online \<noteq> 0" using assms by simp
  ultimately show ?thesis using assms(3) by (simp add: smp_inv_def) (simp add: smp_init_def)
qed

lemma smp_reachable_inv:
  assumes "finite online" "online \<noteq> {}" "card online < 2 ^ 32"
    and "\<forall>i\<in>valid. mpu_state_vote (state_ptr g i) = 0"
    and "enters_within valid sched"
    and "smp_run online sched (smp_init g) = Some s"
  shows "smp_inv online valid (state_ptr g) s"
  using smp_inv_run [OF assms(1,3) smp_inv_init [OF assms(2,1,4)] assms(5,6)] .

lemma vote_full_iff:
  assumes "finite online" "card online < 2 ^ 32" "smp_inv online valid tbl0 s" "i \<in> valid"
  shows "mpu_state_vote (state_ptr (shared s) i) = num_online_cpus online
           \<longleftrightarrow> card (voters online s i) = card online"
proof -
  have "card (voters online s i) \<le> card online"
    using assms(1) voters_sub [of online s i] by (rule card_mono)
  with assms(2,3,4) show ?thesis
    by (simp add: smp_inv_def num_online_cpus_def word32_of_nat_eq)
qed

lemma num_online_two: "num_online_cpus {0, Suc 0} = 2"
  by (simp add: num_online_cpus_def)

lemma concurrent_entry_cmds:
  assumes "mpu_state_vote (state_ptr g i) = 0" "sched \<in> set (concurrent_entry i)"
  shows "\<exists>s. smp_run {0, 1} sched (smp_init g) = Some s
           \<and> mpu_cmds (trace s) = [mpu_pwrst (state_ptr g i), PWRDM_FUNC_PWRST_ON]"
  using assms
  by (auto simp: concurrent_entry_def smp_init_def smp_enter_def smp_exit_def
        smp_vote_enter_def smp_vote_exit_def env_of_def Let_def num_online_two)

lemma before_append_notin: "a \<notin> set xs \<Longrightarrow> before a b (xs @ ys) = before a b ys"
  by (induction xs) auto

lemma omap4_votes_zero: "\<forall>i\<in>{0, 1, 2}. mpu_state_vote (state_ptr omap4_globals i) = 0"
  by (simp add: omap4_globals_def table_at_def omap4_idle_data_def)

lemma two_online: "finite {0, 1 :: nat}" "{0, 1 :: nat} \<noteq> {}" "card {0, 1 :: nat} < 2 ^ 32"
  by simp_all

subsection \<open>Init\<close>

lemma on_each_cpu_timer:
  "set (on_each_cpu omap_setup_broadcast_timer cpus) \<subseteq> range (Clockevents_notify CLOCK_EVT_NOTIFY_BROADCAST_ON)"
  by (induction cpus) (auto simp: on_each_cpu_def omap_setup_broadcast_timer_def)

lemma filter_lookup_timer [simp]:
  "filter is_lookup (on_each_cpu omap_setup_broadcast_timer cpus) = []"
  by (induction cpus) (auto simp: on_each_cpu_def omap_setup_broadcast_timer_def)

lemma register_notin_timer [simp]:
  "Cpuidle_register n \<notin> set (on_each_cpu omap_setup_broadcast_timer cpus)"
  "Cpuidle_register_driver n \<notin> set (on_each_cpu omap_setup_broadcast_timer cpus)"
  using on_each_cpu_timer [of cpus] by auto

subsection \<open>The coupled callback\<close>

text \<open>
  On return the CPU's own flag is false.  The broadcast notifications and the per-CPU PM
  chain calls come in pairs, at most once; on CPU0 so do the cluster-level chain calls;
  and a call that saw CPU1's flag set consists of polls, the barrier and the clearing of
  the flag only.
\<close>

lemma coupled_flag_cleared:
  "omap_enter_idle_coupled e dev index g = Some r \<Longrightarrow> \<not> cpu_done (final r) (cpu dev)"
  by (auto simp: omap_enter_idle_coupled_def Let_def split: option.splits)

lemma count_list_polls:
  "\<forall>ev\<in>set evs. is_poll ev \<Longrightarrow> \<not> is_poll a \<Longrightarrow> count_list evs a = 0"
  by (induction evs) auto

lemma coupled_pairs:
  assumes "omap_enter_idle_coupled e dev index g = Some r"
  shows "count_list (events r) Cpu_pm_enter = count_list (events r) Cpu_pm_exit
       \<and> count_list (events r) Cpu_pm_enter \<le> 1
       \<and> count_list (events r) (Clockevents_notify CLOCK_EVT_NOTIFY_BROADCAST_ENTER (smp_processor_id e))
           = count_list (events r) (Clockevents_notify CLOCK_EVT_NOTIFY_BROADCAST_EXIT (smp_processor_id e))
       \<and> (cpu dev = 0 \<longrightarrow>
            count_list (events r) Cpu_cluster_pm_enter = count_list (events r) Cpu_cluster_pm_exit)
       \<and> (Cpu_done_read 1 True \<in> set (events r) \<longrightarrow>
            (\<forall>ev\<in>set (events r). is_poll ev \<or> ev = Cpuidle_coupled_parallel_barrier (cpu dev)
                \<or> ev = Cpu_done_write (cpu dev) False))"
proof -
  from assms obtain off waited where
    w: "(if cpu dev = 0 \<and> 1 \<in> cpu_online_mask e then wait_cpu1_off (polls e) else Some (True, []))
          = Some (off, waited)"
    and ev: "events r = waited
                  @ (if off then coupled_sequence e dev (state_ptr g index) else [])
                  @ [Cpuidle_coupled_parallel_barrier (cpu dev), Cpu_done_write (cpu dev) False]"
    by (auto simp: omap_enter_idle_coupled_def Let_def split: option.splits)
  have wp: "\<forall>ev\<in>set waited. is_poll ev"
    using w wait_polls by (auto split: if_splits)
  note z = count_list_polls [OF wp]
  show ?thesis
  proof (cases off)
    case True
    have "Cpu_done_read 1 True \<notin> set waited"
      using w True wait_off by (auto split: if_splits)
    with True ev show ?thesis
      by (auto simp: z coupled_sequence_def)
  next
    case False
    with ev wp show ?thesis by (auto simp: z)
  qed
qed

text \<open>
  However many polls CPU0 makes, while none of them sees CPU1 off or its flag set the
  call has not returned.
\<close>

lemma wait_replicate: "st \<noteq> PWRDM_FUNC_PWRST_OFF \<Longrightarrow> wait_cpu1_off (replicate n (st, False)) = None"
  by (induction n) simp_all

lemma leader_spins:
  assumes "cpu dev = 0" "1 \<in> cpu_online_mask e"
    and "polls e = replicate n (st, False)" "st \<noteq> PWRDM_FUNC_PWRST_OFF"
  shows "omap_enter_idle_coupled e dev index g = None"
  using assms by (simp add: omap_enter_idle_coupled_def wait_replicate Let_def)

lemma poll_only: "\<forall>ev\<in>set evs. is_poll ev \<Longrightarrow> \<not> is_poll a \<Longrightarrow> a \<notin> set evs"
  by auto

text \<open>
  Where the MPU domain is restored.  Symmetric variant: when the counter stands at the
  number of online CPUs, the second locked section commands the domain to ON before it
  stores the decremented counter, both under the lock; and, for an unchanging set of
  online CPUs, once every CPU has left the commands to the domain end restored.
  Coupled variant: a call of CPU0 with CPU1 online leaves the domain restored (on the
  full path the command to ON comes after the low-power entry and before the barrier,
  on the abort path nothing was commanded); a call of any other CPU commands the MPU
  domain to nothing; a call of CPU0 with CPU1 offline commands the domain to the
  state's target and never back.
\<close>

lemma smp_exit_restores_first:
  "mpu_state_vote (tbl i) = n \<Longrightarrow>
   snd (smp_vote_exit n i tbl) =
     [Raw_spin_lock_irqsave,
      Pwrdm_set_next_fpwrst Mpu_pd PWRDM_FUNC_PWRST_ON,
      Mpu_state_vote_write i (n - 1),
      Raw_spin_unlock_irqrestore]"
  by (simp add: smp_vote_exit_def Let_def)

lemma smp_all_left_restored:
  assumes fin: "finite online" and ne: "online \<noteq> {}" and small: "card online < 2 ^ 32"
    and zero: "\<forall>j\<in>valid. mpu_state_vote (state_ptr g0 j) = 0"
    and within: "enters_within valid sched"
    and run: "smp_run online sched (smp_init g0) = Some s"
    and out: "\<forall>c. phase s c = Outside"
  shows "mpu_follow Fully_on (mpu_cmds (trace s)) = Some Fully_on"
proof -
  have inv: "smp_inv online valid (state_ptr g0) s"
    using fin ne small zero within run by (rule smp_reachable_inv)
  have "voters online s j = {}" for j using out by (simp add: voters_def)
  then have "card (voters online s j) \<noteq> card online" for j using fin ne by simp
  with inv show ?thesis by (simp add: smp_inv_def)
qed

lemma leader_restores_with_cpu1_online:
  assumes leader: "cpu dev = 0" "1 \<in> cpu_online_mask e"
    and run: "omap_enter_idle_coupled e dev index g = Some r"
  shows "mpu_follow Fully_on (mpu_cmds (events r)) = Some Fully_on
      \<and> (mpu_cmds (events r) \<noteq> [] \<longrightarrow>
           before (Omap4_mpuss_enter_lowpower 0 (cpu_pwrst (state_ptr g index)))
                  (Pwrdm_set_next_fpwrst Mpu_pd PWRDM_FUNC_PWRST_ON) (events r)
         \<and> before (Pwrdm_set_next_fpwrst Mpu_pd PWRDM_FUNC_PWRST_ON)
                  (Cpuidle_coupled_parallel_barrier 0) (events r))"
proof -
  from run leader obtain off waited where w: "wait_cpu1_off (polls e) = Some (off, waited)"
    and ev: "events r = waited
                @ (if off then coupled_sequence e dev (state_ptr g index) else [])
                @ [Cpuidle_coupled_parallel_barrier (cpu dev), Cpu_done_write (cpu dev) False]"
    by (auto simp: omap_enter_idle_coupled_def split: option.splits)
  have wp: "\<forall>ev\<in>set waited. is_poll ev" by (rule wait_polls [OF w])
  have wm: "mpu_cmds waited = []" by (rule mpu_cmds_polls [OF wp])
  have wn: "Pwrdm_set_next_fpwrst Mpu_pd PWRDM_FUNC_PWRST_ON \<notin> set waited"
    by (rule poll_only [OF wp]) simp
  have wl: "Omap4_mpuss_enter_lowpower 0 (cpu_pwrst (state_ptr g index)) \<notin> set waited"
    by (rule poll_only [OF wp]) simp
  show ?thesis
  proof (cases off)
    case True
    with ev leader wm wn wl show ?thesis
      by (simp add: before_append_notin coupled_sequence_def)
  next
    case False
    with ev wm show ?thesis by simp
  qed
qed

lemma follower_never_commands_mpu:
  "cpu dev \<noteq> 0 \<Longrightarrow> omap_enter_idle_coupled e dev index g = Some r \<Longrightarrow> mpu_cmds (events r) = []"
  by (auto simp: omap_enter_idle_coupled_def coupled_sequence_def Let_def)

lemma leader_alone_never_restores:
  assumes "cpu dev = 0" "1 \<notin> cpu_online_mask e"
  shows "\<exists>r. omap_enter_idle_coupled e dev index g = Some r
           \<and> mpu_cmds (events r) = [mpu_pwrst (state_ptr g index)]
           \<and> Pwrdm_set_next_fpwrst Mpu_pd PWRDM_FUNC_PWRST_ON \<notin> set (events r)"
  using assms by (simp add: omap_enter_idle_coupled_def coupled_sequence_def Let_def)

section \<open>The coupled variant\<close>

text \<open>
  C2.  In every execution of \<open>omap_enter_idle_coupled\<close> by the leader (CPU0, with CPU1
  online) that commands the MPU domain at all, the wait loop was left through a read of
  CPU1's power state that returned OFF: the events are polls, then that read, then
  events that are no polls (among them every command to the MPU domain).  An execution
  in which the leader saw CPU1's completion flag set (the abort shortcut) commands the
  MPU domain to nothing.
\<close>

theorem leader_lowers_only_after_cpu1_off:
  assumes leader: "cpu dev = 0" "1 \<in> cpu_online_mask e"
    and run: "omap_enter_idle_coupled e dev index g = Some r"
  shows "(mpu_cmds (events r) \<noteq> [] \<longrightarrow>
            (\<exists>pre post. events r = pre @ Pwrdm_read_fpwrst (Cpu_pd 1) PWRDM_FUNC_PWRST_OFF # post
                \<and> (\<forall>ev\<in>set pre. is_poll ev) \<and> (\<forall>ev\<in>set post. \<not> is_poll ev)))
         \<and> (Cpu_done_read 1 True \<in> set (events r) \<longrightarrow> mpu_cmds (events r) = [])"
proof -
  from run leader obtain off waited where w: "wait_cpu1_off (polls e) = Some (off, waited)"
    and ev: "events r = waited
                  @ (if off then coupled_sequence e dev (state_ptr g index) else [])
                  @ [Cpuidle_coupled_parallel_barrier (cpu dev), Cpu_done_write (cpu dev) False]"
    by (auto simp: omap_enter_idle_coupled_def split: option.splits)
  have wp: "\<forall>ev\<in>set waited. is_poll ev" by (rule wait_polls [OF w])
  have wm: "mpu_cmds waited = []" by (rule mpu_cmds_polls [OF wp])
  show ?thesis
  proof (cases off)
    case True
    with w have "wait_cpu1_off (polls e) = Some (True, waited)" by simp
    from wait_off [OF this] obtain pre
      where p: "waited = pre @ [Pwrdm_read_fpwrst (Cpu_pd 1) PWRDM_FUNC_PWRST_OFF]"
        and nd: "Cpu_done_read 1 True \<notin> set waited"
      by blast
    let ?post = "coupled_sequence e dev (state_ptr g index)
                  @ [Cpuidle_coupled_parallel_barrier (cpu dev), Cpu_done_write (cpu dev) False]"
    have 1: "events r = pre @ Pwrdm_read_fpwrst (Cpu_pd 1) PWRDM_FUNC_PWRST_OFF # ?post"
      using ev True p by simp
    have 2: "\<forall>ev\<in>set pre. is_poll ev" using wp p by simp
    have 3: "\<forall>ev\<in>set ?post. \<not> is_poll ev"
      by (auto simp: coupled_sequence_def)
    have 4: "Cpu_done_read 1 True \<notin> set (events r)"
      using nd ev True by (auto simp: coupled_sequence_def)
    from 1 2 3 4 show ?thesis by blast
  next
    case False
    with ev wm show ?thesis by simp
  qed
qed

theorem leader_lowers_only_after_cpu1_off_witness:
  "\<exists>r. omap_enter_idle_coupled
          ((env_of {0, 1} 0)\<lparr>polls := [(PWRDM_FUNC_PWRST_ON, False), (PWRDM_FUNC_PWRST_OFF, False)]\<rparr>)
          \<lparr>cpu = 0\<rparr> 1 omap4_globals = Some r
      \<and> mpu_cmds (events r) = [PWRDM_FUNC_PWRST_CSWR, PWRDM_FUNC_PWRST_ON]
      \<and> (\<exists>pre post. events r = pre @ Pwrdm_read_fpwrst (Cpu_pd 1) PWRDM_FUNC_PWRST_OFF # post
            \<and> (\<forall>ev\<in>set pre. is_poll ev) \<and> (\<forall>ev\<in>set post. \<not> is_poll ev))"
proof -
  let ?e = "(env_of {0, 1} 0)\<lparr>polls := [(PWRDM_FUNC_PWRST_ON, False), (PWRDM_FUNC_PWRST_OFF, False)]\<rparr>"
  obtain r where run: "omap_enter_idle_coupled ?e \<lparr>cpu = 0\<rparr> 1 omap4_globals = Some r"
    and cmds: "mpu_cmds (events r) = [PWRDM_FUNC_PWRST_CSWR, PWRDM_FUNC_PWRST_ON]"
    by (simp add: omap_enter_idle_coupled_def env_of_def omap4_globals_def table_at_def
          omap4_idle_data_def coupled_sequence_def)
  have l: "cpu \<lparr>cpu = 0\<rparr> = 0" "1 \<in> cpu_online_mask ?e"
    by (simp_all add: env_of_def)
  from leader_lowers_only_after_cpu1_off [OF l run] run cmds show ?thesis
    by simp
qed

text \<open>
  C3.  When the leader's polls see CPU1 not off and its flag clear for a while, and then
  see the flag set while CPU1 is still not off, the call returns: the wait loop ends at
  that poll, the next event is the barrier, and nothing is commanded to the MPU domain.
\<close>

theorem leader_abort_reaches_barrier:
  assumes leader: "cpu dev = 0" "1 \<in> cpu_online_mask e"
    and obs: "polls e = pre @ (st, True) # rest"
    and pre: "spinning pre"
    and st: "st \<noteq> PWRDM_FUNC_PWRST_OFF"
  shows "\<exists>r. omap_enter_idle_coupled e dev index g = Some r
           \<and> ret r = index
           \<and> events r = poll_events (pre @ [(st, True)])
                 @ [Cpuidle_coupled_parallel_barrier 0, Cpu_done_write 0 False]
           \<and> mpu_cmds (events r) = []"
proof -
  have w: "wait_cpu1_off (polls e) = Some (False, poll_events (pre @ [(st, True)]))"
    using st by (simp add: obs wait_spinning [OF pre] poll_events_def)
  have "mpu_cmds (poll_events (pre @ [(st, True)])) = []"
    by (rule mpu_cmds_polls [OF poll_events_polls])
  then show ?thesis
    using leader w by (simp add: omap_enter_idle_coupled_def)
qed

theorem leader_abort_reaches_barrier_witness:
  "\<exists>r. omap_enter_idle_coupled
          ((env_of {0, 1} 0)\<lparr>polls := [(PWRDM_FUNC_PWRST_ON, False), (PWRDM_FUNC_PWRST_CSWR, True)]\<rparr>)
          \<lparr>cpu = 0\<rparr> 2 omap4_globals = Some r
      \<and> ret r = 2
      \<and> events r =
          [Pwrdm_read_fpwrst (Cpu_pd 1) PWRDM_FUNC_PWRST_ON, Cpu_relax, Cpu_done_read 1 False,
           Pwrdm_read_fpwrst (Cpu_pd 1) PWRDM_FUNC_PWRST_CSWR, Cpu_relax, Cpu_done_read 1 True,
           Cpuidle_coupled_parallel_barrier 0, Cpu_done_write 0 False]
      \<and> mpu_cmds (events r) = []"
  using leader_abort_reaches_barrier
    [where dev = "\<lparr>cpu = 0\<rparr>"
       and e = "(env_of {0, 1} 0)\<lparr>polls := [(PWRDM_FUNC_PWRST_ON, False), (PWRDM_FUNC_PWRST_CSWR, True)]\<rparr>"
       and pre = "[(PWRDM_FUNC_PWRST_ON, False)]" and st = PWRDM_FUNC_PWRST_CSWR and rest = "[]"
       and index = 2 and g = omap4_globals]
  by (simp add: env_of_def spinning_def poll_events_def)

text \<open>
  C4.  Not every execution reaches the barrier.  CPU0, with CPU1 online, whose polls
  see CPU1 not off and its flag clear is still in the wait loop when the polls end: it
  has not returned and has not called the barrier.
\<close>

theorem leader_spinning_reaches_no_barrier:
  "omap_enter_idle_coupled
      ((env_of {0, 1} 0)\<lparr>polls := [(PWRDM_FUNC_PWRST_ON, False), (PWRDM_FUNC_PWRST_ON, False),
                                   (PWRDM_FUNC_PWRST_ON, False)]\<rparr>)
      \<lparr>cpu = 0\<rparr> 1 omap4_globals = None
   \<and> \<not> resolves [(PWRDM_FUNC_PWRST_ON, False), (PWRDM_FUNC_PWRST_ON, False),
                  (PWRDM_FUNC_PWRST_ON, False)]"
  by (simp add: omap_enter_idle_coupled_def env_of_def resolves_def Let_def)

text \<open>
  C4, as the code has it.  A call of \<open>omap_enter_idle_coupled\<close> whose wait loop ends
  (the CPU is not the leader, or CPU1 is offline, or some poll sees CPU1 off or its flag
  set) returns, on the full path and on the abort path alike, and its last two events
  are the barrier call and the clearing of the CPU's own flag, in that order; no barrier
  call and no clearing of a flag comes before them.
\<close>

theorem coupled_barrier_once:
  assumes "cpu dev \<noteq> 0 \<or> 1 \<notin> cpu_online_mask e \<or> resolves (polls e)"
  shows "\<exists>r pre. omap_enter_idle_coupled e dev index g = Some r
           \<and> events r = pre @ [Cpuidle_coupled_parallel_barrier (cpu dev),
                               Cpu_done_write (cpu dev) False]
           \<and> (\<forall>c. Cpuidle_coupled_parallel_barrier c \<notin> set pre)
           \<and> (\<forall>c. Cpu_done_write c False \<notin> set pre)"
proof -
  obtain off waited where w:
    "(if cpu dev = 0 \<and> 1 \<in> cpu_online_mask e then wait_cpu1_off (polls e) else Some (True, []))
       = Some (off, waited)" and wp: "\<forall>ev\<in>set waited. is_poll ev"
  proof (cases "cpu dev = 0 \<and> 1 \<in> cpu_online_mask e")
    case True
    with assms have "wait_cpu1_off (polls e) \<noteq> None" by (simp add: wait_None)
    then obtain off waited where "wait_cpu1_off (polls e) = Some (off, waited)" by auto
    with True that wait_polls show ?thesis by auto
  next
    case False
    with that show ?thesis by auto
  qed
  let ?pre = "waited @ (if off then coupled_sequence e dev (state_ptr g index) else [])"
  have "\<forall>c. Cpuidle_coupled_parallel_barrier c \<notin> set ?pre \<and> Cpu_done_write c False \<notin> set ?pre"
    using wp by (auto simp: coupled_sequence_def)
  then show ?thesis
    using w by (auto simp: omap_enter_idle_coupled_def)
qed

theorem coupled_barrier_once_witness:
  "resolves [(PWRDM_FUNC_PWRST_ON, True)]
   \<and> (\<exists>r pre. omap_enter_idle_coupled
          ((env_of {0, 1} 0)\<lparr>polls := [(PWRDM_FUNC_PWRST_ON, True)]\<rparr>) \<lparr>cpu = 0\<rparr> 1 omap4_globals = Some r
        \<and> events r = pre @ [Cpuidle_coupled_parallel_barrier 0, Cpu_done_write 0 False]
        \<and> (\<forall>c. Cpuidle_coupled_parallel_barrier c \<notin> set pre)
        \<and> (\<forall>c. Cpu_done_write c False \<notin> set pre))
   \<and> (\<exists>r pre. omap_enter_idle_coupled (env_of {0, 1} 1) \<lparr>cpu = 1\<rparr> 1 omap4_globals = Some r
        \<and> events r = pre @ [Cpuidle_coupled_parallel_barrier 1, Cpu_done_write 1 False]
        \<and> (\<forall>c. Cpuidle_coupled_parallel_barrier c \<notin> set pre)
        \<and> (\<forall>c. Cpu_done_write c False \<notin> set pre))"
proof -
  have 1: "resolves [(PWRDM_FUNC_PWRST_ON, True)]"
    by (simp add: resolves_def)
  have 2: "cpu \<lparr>cpu = 0\<rparr> \<noteq> 0
      \<or> 1 \<notin> cpu_online_mask ((env_of {0, 1} 0)\<lparr>polls := [(PWRDM_FUNC_PWRST_ON, True)]\<rparr>)
      \<or> resolves (polls ((env_of {0, 1} 0)\<lparr>polls := [(PWRDM_FUNC_PWRST_ON, True)]\<rparr>))"
    using 1 by simp
  have 3: "cpu \<lparr>cpu = 1\<rparr> \<noteq> 0 \<or> 1 \<notin> cpu_online_mask (env_of {0, 1} 1)
      \<or> resolves (polls (env_of {0, 1} 1))"
    by simp
  from 1 coupled_barrier_once [OF 2, of 1 omap4_globals]
    coupled_barrier_once [OF 3, of 1 omap4_globals]
  show ?thesis by simp
qed

text \<open>
  C6.  The cluster-level chain does not come before the domain command.  On the retention state (index 1 of
  the OMAP4 table, MPU target CSWR) the leader's full sequence never calls the
  cluster-level enter chain; on the OSWR state (index 2) it calls it after the command
  to the MPU domain, not before.
\<close>

theorem cluster_chain_not_before_domain_command:
  "omap_enter_idle_coupled
      ((env_of {0, 1} 0)\<lparr>polls := [(PWRDM_FUNC_PWRST_OFF, False)]\<rparr>) \<lparr>cpu = 0\<rparr> 1 omap4_globals \<noteq> None
   \<and> Cpu_cluster_pm_enter \<notin> set (events_of (omap_enter_idle_coupled
      ((env_of {0, 1} 0)\<lparr>polls := [(PWRDM_FUNC_PWRST_OFF, False)]\<rparr>) \<lparr>cpu = 0\<rparr> 1 omap4_globals))
   \<and> omap_enter_idle_coupled
      ((env_of {0, 1} 0)\<lparr>polls := [(PWRDM_FUNC_PWRST_OFF, False)]\<rparr>) \<lparr>cpu = 0\<rparr> 2 omap4_globals \<noteq> None
   \<and> \<not> before Cpu_cluster_pm_enter (Pwrdm_set_fpwrst Mpu_pd PWRDM_FUNC_PWRST_OSWR)
        (events_of (omap_enter_idle_coupled
          ((env_of {0, 1} 0)\<lparr>polls := [(PWRDM_FUNC_PWRST_OFF, False)]\<rparr>) \<lparr>cpu = 0\<rparr> 2 omap4_globals))
   \<and> before (Pwrdm_set_fpwrst Mpu_pd PWRDM_FUNC_PWRST_OSWR) Cpu_cluster_pm_enter
        (events_of (omap_enter_idle_coupled
          ((env_of {0, 1} 0)\<lparr>polls := [(PWRDM_FUNC_PWRST_OFF, False)]\<rparr>) \<lparr>cpu = 0\<rparr> 2 omap4_globals))"
  by (simp add: omap_enter_idle_coupled_def env_of_def omap4_globals_def table_at_def
        omap4_idle_data_def coupled_sequence_def events_of_def Let_def)

text \<open>
  C6, as the code has it.  When the leader's polls end with CPU1 read as off, the call
  returns and its events are, in this order: the polls; the broadcast ENTER
  notification; the per-CPU PM enter chain; the command of the MPU domain to the
  state's target (with a warning when the command reports a failure); the cluster-level
  PM enter chain, only when the target is OSWR; the low-power entry of CPU0; the
  setting of CPU0's flag; the MPU domain back to ON; the wake-up of CPU1's clock
  domain; CPU1's power domain to ON; CPU1's clock domain allowed to idle; the per-CPU PM
  exit chain; the cluster-level PM exit chain, only when the target is OSWR; the
  broadcast EXIT notification; the barrier; the clearing of CPU0's flag.
\<close>

theorem leader_full_sequence:
  assumes leader: "cpu dev = 0" "1 \<in> cpu_online_mask e"
    and obs: "polls e = pre @ (PWRDM_FUNC_PWRST_OFF, d) # rest"
    and pre: "spinning pre"
  shows "\<exists>r. omap_enter_idle_coupled e dev index g = Some r
     \<and> events r =
         poll_events pre
         @ [Pwrdm_read_fpwrst (Cpu_pd 1) PWRDM_FUNC_PWRST_OFF,
            Clockevents_notify CLOCK_EVT_NOTIFY_BROADCAST_ENTER (smp_processor_id e),
            Cpu_pm_enter,
            Pwrdm_set_fpwrst Mpu_pd (mpu_pwrst (state_ptr g index))]
         @ (if pwrdm_set_fpwrst_ret e \<noteq> 0 then [Warn_on] else [])
         @ (if mpu_pwrst (state_ptr g index) = PWRDM_FUNC_PWRST_OSWR
            then [Cpu_cluster_pm_enter] else [])
         @ [Omap4_mpuss_enter_lowpower 0 (cpu_pwrst (state_ptr g index)),
            Cpu_done_write 0 True,
            Pwrdm_set_next_fpwrst Mpu_pd PWRDM_FUNC_PWRST_ON,
            Clkdm_wakeup 1,
            Pwrdm_set_next_fpwrst (Cpu_pd 1) PWRDM_FUNC_PWRST_ON,
            Clkdm_allow_idle 1,
            Cpu_pm_exit]
         @ (if mpu_pwrst (state_ptr g index) = PWRDM_FUNC_PWRST_OSWR
            then [Cpu_cluster_pm_exit] else [])
         @ [Clockevents_notify CLOCK_EVT_NOTIFY_BROADCAST_EXIT (smp_processor_id e),
            Cpuidle_coupled_parallel_barrier 0,
            Cpu_done_write 0 False]"
proof -
  have w: "wait_cpu1_off (polls e) =
      Some (True, poll_events pre @ [Pwrdm_read_fpwrst (Cpu_pd 1) PWRDM_FUNC_PWRST_OFF])"
    by (simp add: obs wait_spinning [OF pre])
  show ?thesis
    using leader by (simp add: omap_enter_idle_coupled_def w coupled_sequence_def Let_def)
qed

theorem leader_full_sequence_witness:
  "\<exists>r. omap_enter_idle_coupled
          ((env_of {0, 1} 0)\<lparr>polls := [(PWRDM_FUNC_PWRST_ON, False), (PWRDM_FUNC_PWRST_OFF, False)]\<rparr>)
          \<lparr>cpu = 0\<rparr> 2 omap4_globals = Some r
     \<and> events r =
         [Pwrdm_read_fpwrst (Cpu_pd 1) PWRDM_FUNC_PWRST_ON, Cpu_relax, Cpu_done_read 1 False,
          Pwrdm_read_fpwrst (Cpu_pd 1) PWRDM_FUNC_PWRST_OFF,
          Clockevents_notify CLOCK_EVT_NOTIFY_BROADCAST_ENTER 0,
          Cpu_pm_enter,
          Pwrdm_set_fpwrst Mpu_pd PWRDM_FUNC_PWRST_OSWR,
          Cpu_cluster_pm_enter,
          Omap4_mpuss_enter_lowpower 0 PWRDM_FUNC_PWRST_OFF,
          Cpu_done_write 0 True,
          Pwrdm_set_next_fpwrst Mpu_pd PWRDM_FUNC_PWRST_ON,
          Clkdm_wakeup 1,
          Pwrdm_set_next_fpwrst (Cpu_pd 1) PWRDM_FUNC_PWRST_ON,
          Clkdm_allow_idle 1,
          Cpu_pm_exit,
          Cpu_cluster_pm_exit,
          Clockevents_notify CLOCK_EVT_NOTIFY_BROADCAST_EXIT 0,
          Cpuidle_coupled_parallel_barrier 0,
          Cpu_done_write 0 False]"
  using leader_full_sequence
    [where dev = "\<lparr>cpu = 0\<rparr>"
       and e = "(env_of {0, 1} 0)\<lparr>polls := [(PWRDM_FUNC_PWRST_ON, False), (PWRDM_FUNC_PWRST_OFF, False)]\<rparr>"
       and pre = "[(PWRDM_FUNC_PWRST_ON, False)]" and d = False and rest = "[]"
       and index = 2 and g = omap4_globals]
  by (simp add: env_of_def spinning_def poll_events_def omap4_globals_def table_at_def
        omap4_idle_data_def)

text \<open>
  C10.  The code at CPU1 on the OSWR state (index 2 of the OMAP4 table): the
  cluster-level exit chain is called, the cluster-level enter chain is not.  The enter
  call sits under \<open>dev->cpu == 0\<close>, the exit call is guarded by the MPU target only.
\<close>

theorem follower_cluster_exit_without_enter:
  "map_option events (omap_enter_idle_coupled (env_of {0, 1} 1) \<lparr>cpu = 1\<rparr> 2 omap4_globals) =
     Some [Clockevents_notify CLOCK_EVT_NOTIFY_BROADCAST_ENTER 1,
           Cpu_pm_enter,
           Omap4_mpuss_enter_lowpower 1 PWRDM_FUNC_PWRST_OFF,
           Cpu_done_write 1 True,
           Cpu_pm_exit,
           Cpu_cluster_pm_exit,
           Clockevents_notify CLOCK_EVT_NOTIFY_BROADCAST_EXIT 1,
           Cpuidle_coupled_parallel_barrier 1,
           Cpu_done_write 1 False]"
  by (simp add: omap_enter_idle_coupled_def env_of_def omap4_globals_def table_at_def
        omap4_idle_data_def coupled_sequence_def Let_def)

section \<open>The symmetric variant\<close>

text \<open>
  C1.  Take any concurrent execution of \<open>omap_enter_idle_smp\<close> by the online CPUs, from
  vote counters at zero.  In the state it reaches, when the vote counter of a state
  index equals the number of online CPUs, the commands to the MPU domain so far are
  lowerings and restorations to ON in strict alternation, ending in the lowering to
  that state's target; when no vote counter equals the number of online CPUs, they
  alternate and end restored.  So the domain is lowered when, and only when, a counter
  reaches the number of online CPUs, and restored once, when it leaves it.  Each half
  of the callback commands the domain exactly on that condition.  With two CPUs that
  both enter with the same index before either leaves, the commands are the lowering
  to the target and then the restoration to ON, once each.
\<close>

theorem smp_quorum_commands:
  assumes "finite online" "online \<noteq> {}" "card online < 2 ^ 32"
    and "\<forall>i\<in>valid. mpu_state_vote (state_ptr g i) = 0"
    and "enters_within valid sched"
    and "smp_run online sched (smp_init g) = Some s"
  shows "(\<forall>i\<in>valid. mpu_state_vote (state_ptr (shared s) i) = num_online_cpus online \<longrightarrow>
            mpu_follow Fully_on (mpu_cmds (trace s)) = Some (Lowered (mpu_pwrst (state_ptr g i))))
       \<and> ((\<forall>i\<in>valid. mpu_state_vote (state_ptr (shared s) i) \<noteq> num_online_cpus online) \<longrightarrow>
            mpu_follow Fully_on (mpu_cmds (trace s)) = Some Fully_on)
       \<and> mpu_cmds (snd (smp_enter e dev k h)) =
            (if mpu_state_vote (state_ptr h k) + 1 = num_online_cpus (cpu_online_mask e)
             then [mpu_pwrst (state_ptr h k)] else [])
       \<and> mpu_cmds (events (smp_exit e dev k h)) =
            (if mpu_state_vote (state_ptr h k) = num_online_cpus (cpu_online_mask e)
             then [PWRDM_FUNC_PWRST_ON] else [])
       \<and> (online = {0, 1} \<longrightarrow>
            (\<forall>i\<in>valid. \<forall>sched2\<in>set (concurrent_entry i).
               \<exists>s2. smp_run online sched2 (smp_init g) = Some s2
                  \<and> mpu_cmds (trace s2) = [mpu_pwrst (state_ptr g i), PWRDM_FUNC_PWRST_ON]))"
proof -
  have inv: "smp_inv online valid (state_ptr g) s"
    using assms by (rule smp_reachable_inv)
  note full = vote_full_iff [OF assms(1,3) inv]
  have 1: "mpu_follow Fully_on (mpu_cmds (trace s)) = Some (Lowered (mpu_pwrst (state_ptr g j)))"
    if "j \<in> valid" "mpu_state_vote (state_ptr (shared s) j) = num_online_cpus online" for j
    using that inv by (simp add: full smp_inv_def)
  have 2: "mpu_follow Fully_on (mpu_cmds (trace s)) = Some Fully_on"
    if *: "\<forall>j\<in>valid. mpu_state_vote (state_ptr (shared s) j) \<noteq> num_online_cpus online"
  proof -
    have "card (voters online s j) \<noteq> card online" for j
    proof (cases "j \<in> valid")
      case True
      with * full show ?thesis by blast
    next
      case False
      with inv have "voters online s j = {}" by (auto simp: smp_inv_def)
      with assms(1,2) show ?thesis by simp
    qed
    with inv show ?thesis by (simp add: smp_inv_def)
  qed
  have 3: "\<exists>s2. smp_run online sched2 (smp_init g) = Some s2
                  \<and> mpu_cmds (trace s2) = [mpu_pwrst (state_ptr g j), PWRDM_FUNC_PWRST_ON]"
    if "online = {0, 1}" "j \<in> valid" "sched2 \<in> set (concurrent_entry j)" for j sched2
    using concurrent_entry_cmds [of g j sched2] that assms(4) by simp
  from 1 2 3 show ?thesis by (simp add: smp_enter_cmds smp_exit_cmds)
qed

theorem smp_quorum_commands_witness:
  "\<exists>s. smp_run {0, 1} [Enters 0 1, Enters 1 1] (smp_init omap4_globals) = Some s
      \<and> mpu_state_vote (state_ptr (shared s) 1) = num_online_cpus {0, 1}
      \<and> mpu_follow Fully_on (mpu_cmds (trace s)) = Some (Lowered PWRDM_FUNC_PWRST_CSWR)"
proof -
  obtain s where run: "smp_run {0, 1} [Enters 0 1, Enters 1 1] (smp_init omap4_globals) = Some s"
    and full: "mpu_state_vote (state_ptr (shared s) 1) = num_online_cpus {0, 1}"
    by (simp add: smp_init_def smp_enter_def smp_vote_enter_def env_of_def Let_def
          omap4_globals_def table_at_def omap4_idle_data_def num_online_two)
  have within: "enters_within {0, 1, 2} [Enters 0 1, Enters 1 1]" by simp
  have tgt: "mpu_pwrst (state_ptr omap4_globals 1) = PWRDM_FUNC_PWRST_CSWR"
    by (simp add: omap4_globals_def table_at_def omap4_idle_data_def)
  from smp_quorum_commands [OF two_online omap4_votes_zero within run] full tgt run
  show ?thesis by simp
qed

text \<open>
  C8.  The code asserts nothing about the counter.  With two CPUs online and the
  counter of index 1 already at 2, one more vote stores 3, the locked section consists
  of the lock, the store and the unlock, and the callback returns its index without a
  warning.
\<close>

theorem double_vote_not_asserted:
  "mpu_state_vote (fst (smp_vote_enter (num_online_cpus {0, 1}) 1 voted_twice) 1) = 3
   \<and> unat (num_online_cpus {0, 1}) < unat (3 :: 32 word)
   \<and> snd (smp_vote_enter (num_online_cpus {0, 1}) 1 voted_twice) =
       [Raw_spin_lock_irqsave, Mpu_state_vote_write 1 3, Raw_spin_unlock_irqrestore]
   \<and> Warn_on \<notin> set (events (omap_enter_idle_smp (env_of {0, 1} 0) \<lparr>cpu = 0\<rparr> 1
                              (omap4_globals\<lparr>state_ptr := voted_twice\<rparr>)))
   \<and> ret (omap_enter_idle_smp (env_of {0, 1} 0) \<lparr>cpu = 0\<rparr> 1
             (omap4_globals\<lparr>state_ptr := voted_twice\<rparr>)) = 1"
  by (simp add: smp_vote_enter_def smp_vote_exit_def voted_twice_def num_online_two Let_def
        omap_enter_idle_smp_def smp_enter_def smp_exit_def env_of_def omap4_idle_data_def
        table_at_def omap4_globals_def)

text \<open>
  C8, as the code has it.  In every concurrent execution by the online CPUs, from vote
  counters at zero, the vote counter of each state index is the number of CPUs asleep
  with that index, so it never exceeds the number of online CPUs.
\<close>

theorem smp_vote_bounded:
  assumes "finite online" "online \<noteq> {}" "card online < 2 ^ 32"
    and "\<forall>i\<in>valid. mpu_state_vote (state_ptr g i) = 0"
    and "enters_within valid sched"
    and "smp_run online sched (smp_init g) = Some s"
    and "i \<in> valid"
  shows "unat (mpu_state_vote (state_ptr (shared s) i)) = card (voters online s i)
       \<and> unat (mpu_state_vote (state_ptr (shared s) i)) \<le> unat (num_online_cpus online)
       \<and> unat (num_online_cpus online) = card online"
proof -
  have inv: "smp_inv online valid (state_ptr g) s"
    using assms(1-6) by (rule smp_reachable_inv)
  have le: "card (voters online s i) \<le> card online"
    using assms(1) voters_sub [of online s i] by (rule card_mono)
  have "mpu_state_vote (state_ptr (shared s) i) = of_nat (card (voters online s i))"
    using inv assms(7) by (simp add: smp_inv_def)
  then have 1: "unat (mpu_state_vote (state_ptr (shared s) i)) = card (voters online s i)"
    using le assms(3) by (simp add: unat_of_nat)
  have 2: "unat (num_online_cpus online) = card online"
    using assms(3) by (simp add: num_online_cpus_def unat_of_nat)
  from 1 2 le show ?thesis by simp
qed

theorem smp_vote_bounded_witness:
  "\<exists>s. smp_run {0, 1} [Enters 1 1, Enters 0 1, Leaves 1] (smp_init omap4_globals) = Some s
      \<and> unat (mpu_state_vote (state_ptr (shared s) 1)) = card (voters {0, 1} s 1)
      \<and> unat (mpu_state_vote (state_ptr (shared s) 1)) \<le> unat (num_online_cpus {0, 1})
      \<and> unat (num_online_cpus {0, 1}) = 2"
proof -
  obtain s where run:
    "smp_run {0, 1} [Enters 1 1, Enters 0 1, Leaves 1] (smp_init omap4_globals) = Some s"
    by (simp add: smp_init_def Let_def case_prod_beta)
  have within: "enters_within {0, 1, 2} [Enters 1 1, Enters 0 1, Leaves 1]" by simp
  have "(1::int) \<in> {0, 1, 2}" by simp
  from smp_vote_bounded [OF two_online omap4_votes_zero within run this] run
  show ?thesis by simp
qed

section \<open>Both variants\<close>

text \<open>
  C5.  The code at CPU0 with CPU1 offline, on index 1 of the OMAP4 table: the call
  returns with the MPU domain commanded to CSWR and no command back to ON.  The
  lowering runs for CPU0 whatever the online mask; the restoration sits in the block
  that runs only when CPU1 is online.
\<close>

theorem leader_alone_leaves_mpu_lowered:
  "omap_enter_idle_coupled (env_of {0} 0) \<lparr>cpu = 0\<rparr> 1 omap4_globals \<noteq> None
   \<and> mpu_cmds (events_of (omap_enter_idle_coupled (env_of {0} 0) \<lparr>cpu = 0\<rparr> 1 omap4_globals))
       = [PWRDM_FUNC_PWRST_CSWR]
   \<and> mpu_follow Fully_on
       (mpu_cmds (events_of (omap_enter_idle_coupled (env_of {0} 0) \<lparr>cpu = 0\<rparr> 1 omap4_globals)))
       = Some (Lowered PWRDM_FUNC_PWRST_CSWR)
   \<and> events_of (omap_enter_idle_coupled (env_of {0} 0) \<lparr>cpu = 0\<rparr> 1 omap4_globals) =
       [Clockevents_notify CLOCK_EVT_NOTIFY_BROADCAST_ENTER 0,
        Cpu_pm_enter,
        Pwrdm_set_fpwrst Mpu_pd PWRDM_FUNC_PWRST_CSWR,
        Omap4_mpuss_enter_lowpower 0 PWRDM_FUNC_PWRST_OFF,
        Cpu_done_write 0 True,
        Cpu_pm_exit,
        Clockevents_notify CLOCK_EVT_NOTIFY_BROADCAST_EXIT 0,
        Cpuidle_coupled_parallel_barrier 0,
        Cpu_done_write 0 False]"
  by (simp add: omap_enter_idle_coupled_def env_of_def omap4_globals_def table_at_def
        omap4_idle_data_def coupled_sequence_def events_of_def Let_def)

text \<open>
  C7.  Each callback returns the index it was called with: the simple one, the
  symmetric one (also when other CPUs changed the table between its two halves), and
  the coupled one on the full path and on the abort path.  The coupled callback fails
  to return only while CPU0 is still in its wait loop.
\<close>

theorem enter_idle_returns_index:
  "ret (omap_enter_idle_simple dev index g) = index
   \<and> ret (omap_enter_idle_smp e dev index g) = index
   \<and> ret (smp_exit e dev index g) = index
   \<and> map_option ret (omap_enter_idle_coupled e dev index g) =
       (if cpu dev = 0 \<and> 1 \<in> cpu_online_mask e \<and> \<not> resolves (polls e) then None
        else Some index)"
proof -
  have "ret (omap_enter_idle_smp e dev index g) = index"
    by (simp add: omap_enter_idle_smp_def smp_exit_def case_prod_beta Let_def)
  moreover have "map_option ret (omap_enter_idle_coupled e dev index g) =
       (if cpu dev = 0 \<and> 1 \<in> cpu_online_mask e \<and> \<not> resolves (polls e) then None
        else Some index)"
    using wait_None [of "polls e"]
    by (auto simp: omap_enter_idle_coupled_def split: option.splits)
  ultimately show ?thesis by (simp add: omap_enter_idle_simple_def smp_exit_def case_prod_beta)
qed

theorem enter_idle_returns_index_witness:
  "ret (omap_enter_idle_simple \<lparr>cpu = 1\<rparr> 0 omap4_globals) = 0
   \<and> ret (omap_enter_idle_smp (env_of {0, 1} 1) \<lparr>cpu = 1\<rparr> 1 omap4_globals) = 1
   \<and> map_option ret (omap_enter_idle_coupled
        ((env_of {0, 1} 0)\<lparr>polls := [(PWRDM_FUNC_PWRST_CSWR, True)]\<rparr>) \<lparr>cpu = 0\<rparr> 2 omap4_globals)
       = Some 2
   \<and> map_option ret (omap_enter_idle_coupled
        ((env_of {0, 1} 0)\<lparr>polls := [(PWRDM_FUNC_PWRST_OFF, False)]\<rparr>) \<lparr>cpu = 0\<rparr> 2 omap4_globals)
       = Some 2"
  using enter_idle_returns_index [of "\<lparr>cpu = 1\<rparr>" 0 omap4_globals "env_of {0, 1} 1" ]
    enter_idle_returns_index [of "\<lparr>cpu = 1\<rparr>" 1 omap4_globals "env_of {0, 1} 1"]
    enter_idle_returns_index [of "\<lparr>cpu = 0\<rparr>" 2 omap4_globals
      "(env_of {0, 1} 0)\<lparr>polls := [(PWRDM_FUNC_PWRST_CSWR, True)]\<rparr>"]
    enter_idle_returns_index [of "\<lparr>cpu = 0\<rparr>" 2 omap4_globals
      "(env_of {0, 1} 0)\<lparr>polls := [(PWRDM_FUNC_PWRST_OFF, False)]\<rparr>"]
  by (simp add: resolves_def env_of_def)

section \<open>Initialisation\<close>

text \<open>
  C9.  When a power-domain or clock-domain lookup returns NULL, or the SoC is neither
  an OMAP44xx nor an OMAP54xx, \<open>omap4_idle_init\<close> returns \<open>-ENODEV\<close>, which is negative,
  registers no driver, leaves \<open>state_ptr\<close> alone, and has performed no lookup twice.
\<close>

theorem init_failure_enodev:
  assumes "pwrdm_lookup e ''mpu_pwrdm'' = None \<or> pwrdm_lookup e ''cpu0_pwrdm'' = None
         \<or> pwrdm_lookup e ''cpu1_pwrdm'' = None
         \<or> clkdm_lookup e ''mpu0_clkdm'' = None \<or> clkdm_lookup e ''mpu1_clkdm'' = None
         \<or> (\<not> cpu_is_omap44xx e \<and> \<not> soc_is_omap54xx e)"
  shows "fst (omap4_idle_init e g) = - ENODEV
       \<and> fst (omap4_idle_init e g) < 0
       \<and> (\<forall>n. Cpuidle_register n \<notin> set (init_events (omap4_idle_init e g))
             \<and> Cpuidle_register_driver n \<notin> set (init_events (omap4_idle_init e g)))
       \<and> distinct (filter is_lookup (init_events (omap4_idle_init e g)))
       \<and> state_ptr_init (fst (snd (omap4_idle_init e g))) = state_ptr_init g"
  using assms
  by (auto simp: omap4_idle_init_def Let_def init_events_def ENODEV_def)

theorem init_failure_enodev_witness:
  "omap4_idle_init (all_found\<lparr>clkdm_lookup := (\<lambda>n. if n = ''mpu1_clkdm'' then None else Some 2)\<rparr>)
       init_globals0
     = (- 19,
        init_globals0\<lparr>mpu_pd := Some 1, cpu_pd := (\<lambda>c. None)(0 := Some 1, 1 := Some 1),
                      cpu_clkdm := (\<lambda>c. None)(0 := Some 2, 1 := None)\<rparr>,
        [Pwrdm_lookup ''mpu_pwrdm'', Pwrdm_lookup ''cpu0_pwrdm'', Pwrdm_lookup ''cpu1_pwrdm'',
         Clkdm_lookup ''mpu0_clkdm'', Clkdm_lookup ''mpu1_clkdm''])
   \<and> fst (omap4_idle_init (all_found\<lparr>cpu_is_omap44xx := False\<rparr>) init_globals0) = - ENODEV
   \<and> fst (omap4_idle_init (all_found\<lparr>cpu_is_omap44xx := False\<rparr>) init_globals0) < 0
   \<and> distinct (filter is_lookup
        (init_events (omap4_idle_init (all_found\<lparr>cpu_is_omap44xx := False\<rparr>) init_globals0)))"
proof -
  have 1: "omap4_idle_init (all_found\<lparr>clkdm_lookup := (\<lambda>n. if n = ''mpu1_clkdm'' then None else Some 2)\<rparr>)
       init_globals0
     = (- 19,
        init_globals0\<lparr>mpu_pd := Some 1, cpu_pd := (\<lambda>c. None)(0 := Some 1, 1 := Some 1),
                      cpu_clkdm := (\<lambda>c. None)(0 := Some 2, 1 := None)\<rparr>,
        [Pwrdm_lookup ''mpu_pwrdm'', Pwrdm_lookup ''cpu0_pwrdm'', Pwrdm_lookup ''cpu1_pwrdm'',
         Clkdm_lookup ''mpu0_clkdm'', Clkdm_lookup ''mpu1_clkdm''])"
    by (simp add: omap4_idle_init_def all_found_def init_globals0_def ENODEV_def Let_def)
  have "\<not> cpu_is_omap44xx (all_found\<lparr>cpu_is_omap44xx := False\<rparr>)
      \<and> \<not> soc_is_omap54xx (all_found\<lparr>cpu_is_omap44xx := False\<rparr>)"
    by (simp add: all_found_def)
  then have 2: "pwrdm_lookup (all_found\<lparr>cpu_is_omap44xx := False\<rparr>) ''mpu_pwrdm'' = None
         \<or> pwrdm_lookup (all_found\<lparr>cpu_is_omap44xx := False\<rparr>) ''cpu0_pwrdm'' = None
         \<or> pwrdm_lookup (all_found\<lparr>cpu_is_omap44xx := False\<rparr>) ''cpu1_pwrdm'' = None
         \<or> clkdm_lookup (all_found\<lparr>cpu_is_omap44xx := False\<rparr>) ''mpu0_clkdm'' = None
         \<or> clkdm_lookup (all_found\<lparr>cpu_is_omap44xx := False\<rparr>) ''mpu1_clkdm'' = None
         \<or> (\<not> cpu_is_omap44xx (all_found\<lparr>cpu_is_omap44xx := False\<rparr>)
             \<and> \<not> soc_is_omap54xx (all_found\<lparr>cpu_is_omap44xx := False\<rparr>))"
    by blast
  from 1 init_failure_enodev [OF 2, of init_globals0] show ?thesis by simp
qed

end
